theory Spec2Isabelle
  imports Complex_Main
begin

section \<open>Python string operations used by the scripts\<close>

text \<open>
  Text is modelled as \<open>string\<close> (a list of 8-bit characters), so the model covers ASCII
  text: the whitespace of \<open>str.strip\<close> and of the regular expressions' \<open>\s\<close>, and the
  word characters of \<open>\w\<close>, are the ASCII ones.
\<close>

definition is_space :: "char \<Rightarrow> bool" where
  "is_space c = (c \<in> set [CHR '' '', CHR 0x09, CHR 0x0A, CHR 0x0B, CHR 0x0C, CHR 0x0D,
                            CHR 0x1C, CHR 0x1D, CHR 0x1E, CHR 0x1F])"

text \<open>\<open>s.strip()\<close>\<close>

definition strip :: "string \<Rightarrow> string" where
  "strip s = rev (dropWhile is_space (rev (dropWhile is_space s)))"

text \<open>\<open>s.startswith(p)\<close>\<close>

fun startswith :: "string \<Rightarrow> string \<Rightarrow> bool" where
  "startswith s [] = True"
| "startswith [] (p # ps) = False"
| "startswith (c # cs) (p # ps) = (c = p \<and> startswith cs ps)"

text \<open>
  \<open>s.partition(sep)\<close> for a non-empty separator: the text before and the text after the
  first occurrence of \<open>sep\<close>, or \<open>None\<close> when \<open>sep\<close> does not occur in \<open>s\<close>.
\<close>

fun partition_str :: "string \<Rightarrow> string \<Rightarrow> (string \<times> string) option" where
  "partition_str [] sep = (if sep = [] then Some ([], []) else None)"
| "partition_str (c # cs) sep =
     (if startswith (c # cs) sep then Some ([], drop (length sep) (c # cs))
      else (case partition_str cs sep of
              None \<Rightarrow> None
            | Some (a, b) \<Rightarrow> Some (c # a, b)))"

text \<open>\<open>sub in s\<close>\<close>

definition str_contains :: "string \<Rightarrow> string \<Rightarrow> bool" where
  "str_contains s sub = (partition_str s sub \<noteq> None)"

text \<open>\<open>s.split(sep)[0]\<close>: the text before the first occurrence of \<open>sep\<close>, or all of \<open>s\<close>.\<close>

definition split_first :: "string \<Rightarrow> string \<Rightarrow> string" where
  "split_first s sep = (case partition_str s sep of None \<Rightarrow> s | Some (a, b) \<Rightarrow> a)"

text \<open>\<open>s.split(c)\<close> for a one-character separator.\<close>

fun split_chr :: "string \<Rightarrow> char \<Rightarrow> string list" where
  "split_chr [] sep = [[]]"
| "split_chr (c # cs) sep =
     (if c = sep then [] # split_chr cs sep
      else (case split_chr cs sep of
              [] \<Rightarrow> [[c]]
            | p # ps \<Rightarrow> (c # p) # ps))"

section \<open>RequirementsParser: \<open>parse_requirement_line\<close>\<close>

record package_info =
  name :: string
  version :: string
  raw :: string

definition operators :: "string list" where
  "operators = [''=='', ''>='', ''<='', ''>'', ''<'', ''~='', ''!='']"

text \<open>
  The loop \<open>for operator in [...]\<close>: the first operator of the list that occurs in the line
  splits it once, at its first occurrence.
\<close>

fun match_operators :: "string list \<Rightarrow> string \<Rightarrow> package_info option" where
  "match_operators [] line = None"
| "match_operators (operator # ops) line =
     (case partition_str line operator of
        Some (p0, p1) \<Rightarrow>
          Some \<lparr>name = strip p0, version = operator @ strip p1, raw = line\<rparr>
      | None \<Rightarrow> match_operators ops line)"

definition parse_requirement_line :: "string \<Rightarrow> package_info option" where
  "parse_requirement_line line0 =
     (let line = strip (split_first line0 ''#'') in
      if line = [] then None
      else if startswith line ''git+'' \<or> startswith line ''http'' then
        (case partition_str line ''#egg='' of
           Some (p0, rest) \<Rightarrow>
             Some \<lparr>name = strip (split_first rest ''#egg=''), version = ''git'', raw = line\<rparr>
         | None \<Rightarrow> Some \<lparr>name = line, version = ''url'', raw = line\<rparr>)
      else
        (case match_operators operators line of
           Some info \<Rightarrow> Some info
         | None \<Rightarrow> Some \<lparr>name = strip line, version = ''latest'', raw = line\<rparr>))"


section \<open>ImportExtractor: \<open>extract_imports_from_python_content\<close>\<close>

text \<open>The character class \<open>\w\<close>: letters, digits and the underscore.\<close>

definition is_word :: "char \<Rightarrow> bool" where
  "is_word c =
     (let n = (of_char c :: nat) in
      (48 \<le> n \<and> n \<le> 57) \<or> (65 \<le> n \<and> n \<le> 90) \<or> n = 95 \<or> (97 \<le> n \<and> n \<le> 122))"

text \<open>
  The pieces of the five regular expressions. A matcher takes the text at the current
  position and returns the text after the match, or \<open>None\<close> when it does not match.
  The classes \<open>\s\<close> and \<open>\w\<close> are disjoint and every repetition is followed by a
  character outside its class, so the greedy match is the only one and backtracking never
  finds another.
\<close>

definition re_space_star :: "string \<Rightarrow> string" where
  "re_space_star s = dropWhile is_space s"

definition re_space_plus :: "string \<Rightarrow> string option" where
  "re_space_plus s = (case s of [] \<Rightarrow> None
                      | c # cs \<Rightarrow> if is_space c then Some (dropWhile is_space cs) else None)"

definition re_word_plus :: "string \<Rightarrow> string option" where
  "re_word_plus s = (case s of [] \<Rightarrow> None
                     | c # cs \<Rightarrow> if is_word c then Some (dropWhile is_word cs) else None)"

definition re_lit :: "string \<Rightarrow> string \<Rightarrow> string option" where
  "re_lit p s = (if startswith s p then Some (drop (length p) s) else None)"

text \<open>\<open>(?:\.\w+)*\<close>\<close>

function re_dotted_tail :: "string \<Rightarrow> string" where
  "re_dotted_tail s =
     (case re_lit ''.'' s of
        None \<Rightarrow> s
      | Some r \<Rightarrow> (case re_word_plus r of
                     None \<Rightarrow> s
                   | Some r' \<Rightarrow> re_dotted_tail r'))"
  by pat_completeness auto
termination
proof (relation "measure length")
  show "wf (measure length)" by simp
next
  fix s r r'
  assume 1: "re_lit ''.'' s = Some r" and 2: "re_word_plus r = Some r'"
  from 1 have "length r < length s"
    by (cases s) (auto simp: re_lit_def split: if_splits)
  moreover from 2 have "length r' \<le> length r"
    by (auto simp: re_word_plus_def split: list.splits if_splits
             intro: le_SucI length_dropWhile_le)
  ultimately show "(r', s) \<in> measure length" by simp
qed

text \<open>\<open>\w+(?:\.\w+)*\<close>\<close>

definition re_dotted :: "string \<Rightarrow> string option" where
  "re_dotted s = map_option re_dotted_tail (re_word_plus s)"

text \<open>\<open>(?:\s*,\s*\w+)*\<close>\<close>

function re_comma_tail :: "string \<Rightarrow> string" where
  "re_comma_tail s =
     (case re_lit '','' (re_space_star s) of
        None \<Rightarrow> s
      | Some r \<Rightarrow> (case re_word_plus (re_space_star r) of
                     None \<Rightarrow> s
                   | Some r' \<Rightarrow> re_comma_tail r'))"
  by pat_completeness auto
termination
proof (relation "measure length")
  show "wf (measure length)" by simp
next
  fix s r r'
  assume 1: "re_lit '','' (re_space_star s) = Some r"
    and 2: "re_word_plus (re_space_star r) = Some r'"
  from 1 have "length r < length (re_space_star s)"
    by (cases "re_space_star s") (auto simp: re_lit_def split: if_splits)
  moreover have "length (re_space_star s) \<le> length s"
    by (simp add: re_space_star_def length_dropWhile_le)
  moreover from 2 have "length r' \<le> length (re_space_star r)"
    by (auto simp: re_word_plus_def split: list.splits if_splits
             intro: le_SucI length_dropWhile_le)
  moreover have "length (re_space_star r) \<le> length r"
    by (simp add: re_space_star_def length_dropWhile_le)
  ultimately show "(r', s) \<in> measure length" by simp
qed

text \<open>The text matched between two positions of a line.\<close>

definition matched :: "string \<Rightarrow> string \<Rightarrow> string" where
  "matched from_pos to_pos = take (length from_pos - length to_pos) from_pos"

text \<open>\<open>^\s*import\s+(\w+(?:\s*,\s*\w+)*)\<close>\<close>

definition pattern_import :: "string \<Rightarrow> string option" where
  "pattern_import line =
     Option.bind (re_lit ''import'' (re_space_star line)) (\<lambda>r1.
     Option.bind (re_space_plus r1) (\<lambda>g.
     Option.bind (re_word_plus g) (\<lambda>r2.
     Some (matched g (re_comma_tail r2)))))"

text \<open>\<open>^\s*from\s+(\w+(?:\.\w+)*)\s+import\s+\<close>\<close>

definition pattern_from :: "string \<Rightarrow> string option" where
  "pattern_from line =
     Option.bind (re_lit ''from'' (re_space_star line)) (\<lambda>r1.
     Option.bind (re_space_plus r1) (\<lambda>g.
     Option.bind (re_dotted g) (\<lambda>r2.
     Option.bind (re_space_plus r2) (\<lambda>r3.
     Option.bind (re_lit ''import'' r3) (\<lambda>r4.
     Option.bind (re_space_plus r4) (\<lambda>r5.
     Some (matched g r2)))))))"

text \<open>\<open>^\s*from\s+(\w+(?:\.\w+)*)\s+import\s+\(\<close>\<close>

definition pattern_from_paren :: "string \<Rightarrow> string option" where
  "pattern_from_paren line =
     Option.bind (re_lit ''from'' (re_space_star line)) (\<lambda>r1.
     Option.bind (re_space_plus r1) (\<lambda>g.
     Option.bind (re_dotted g) (\<lambda>r2.
     Option.bind (re_space_plus r2) (\<lambda>r3.
     Option.bind (re_lit ''import'' r3) (\<lambda>r4.
     Option.bind (re_space_plus r4) (\<lambda>r5.
     Option.bind (re_lit ''('' r5) (\<lambda>r6.
     Some (matched g r2))))))))"

text \<open>\<open>^\s*import\s+(\w+(?:\.\w+)*)\s+as\s+\w+\<close>\<close>

definition pattern_import_as :: "string \<Rightarrow> string option" where
  "pattern_import_as line =
     Option.bind (re_lit ''import'' (re_space_star line)) (\<lambda>r1.
     Option.bind (re_space_plus r1) (\<lambda>g.
     Option.bind (re_dotted g) (\<lambda>r2.
     Option.bind (re_space_plus r2) (\<lambda>r3.
     Option.bind (re_lit ''as'' r3) (\<lambda>r4.
     Option.bind (re_space_plus r4) (\<lambda>r5.
     Option.bind (re_word_plus r5) (\<lambda>r6.
     Some (matched g r2))))))))"

text \<open>\<open>^\s*from\s+(\w+(?:\.\w+)*)\s+import\s+\w+\s+as\s+\w+\<close>\<close>

definition pattern_from_as :: "string \<Rightarrow> string option" where
  "pattern_from_as line =
     Option.bind (re_lit ''from'' (re_space_star line)) (\<lambda>r1.
     Option.bind (re_space_plus r1) (\<lambda>g.
     Option.bind (re_dotted g) (\<lambda>r2.
     Option.bind (re_space_plus r2) (\<lambda>r3.
     Option.bind (re_lit ''import'' r3) (\<lambda>r4.
     Option.bind (re_space_plus r4) (\<lambda>r5.
     Option.bind (re_word_plus r5) (\<lambda>r6.
     Option.bind (re_space_plus r6) (\<lambda>r7.
     Option.bind (re_lit ''as'' r7) (\<lambda>r8.
     Option.bind (re_space_plus r8) (\<lambda>r9.
     Option.bind (re_word_plus r9) (\<lambda>r10.
     Some (matched g r2))))))))))))"

definition import_patterns :: "(string \<Rightarrow> string option) list" where
  "import_patterns =
     [pattern_import, pattern_from, pattern_from_paren, pattern_import_as, pattern_from_as]"

text \<open>
  The anchor \<open>^\<close> matches only at the start of a line that holds no newline, so
  \<open>re.findall\<close> returns at most one match, the text of the pattern's group.
\<close>

definition findall :: "(string \<Rightarrow> string option) \<Rightarrow> string \<Rightarrow> string list" where
  "findall pattern line = (case pattern line of None \<Rightarrow> [] | Some m \<Rightarrow> [m])"

text \<open>
  The body of \<open>for match in matches\<close>: the top-level names of one match, in the order in
  which they are added to the set \<open>imports\<close>.
\<close>

definition match_top_levels :: "string \<Rightarrow> string list" where
  "match_top_levels m =
     filter (\<lambda>top_level. top_level \<noteq> [])
       (map (\<lambda>module. split_first (strip module) ''.'') (split_chr m (CHR '','')))"

definition line_top_levels :: "string \<Rightarrow> string list" where
  "line_top_levels line =
     (if startswith (strip line) ''#'' then []
      else concat (map (\<lambda>pattern. concat (map match_top_levels (findall pattern line)))
                       import_patterns))"

definition std_lib :: "string set" where
  "std_lib = set
    [''abc'', ''argparse'', ''asyncio'', ''collections'', ''concurrent'', ''contextlib'', ''copy'',
     ''csv'', ''datetime'', ''decimal'', ''email'', ''enum'', ''functools'', ''glob'', ''hashlib'',
     ''http'', ''importlib'', ''inspect'', ''io'', ''itertools'', ''json'', ''logging'', ''math'',
     ''multiprocessing'', ''operator'', ''os'', ''pathlib'', ''pickle'', ''random'', ''re'',
     ''shutil'', ''signal'', ''socket'', ''sqlite3'', ''statistics'', ''string'', ''subprocess'',
     ''sys'', ''tempfile'', ''threading'', ''time'', ''traceback'', ''typing'', ''uuid'', ''warnings'',
     ''weakref'', ''xml'', ''zipfile'']"

definition extract_imports_from_python_content :: "string \<Rightarrow> (string \<times> bool) set" where
  "extract_imports_from_python_content content =
     (let imports = set (concat (map line_top_levels (split_chr content (CHR 0x0A))))
      in (\<lambda>imp. (imp, imp \<in> std_lib)) ` imports)"

section \<open>The remote API as seen by the scripts\<close>

text \<open>
  A response is modelled by what the scripts read from it: the status code, the rate-limit
  and \<open>Link\<close> headers (a header that is absent is \<open>None\<close>; the two rate-limit headers
  hold integers), the body text, and the decoded JSON body as each reader sees it (the
  listing page, the branch's commit identifier, the tree and its \<open>truncated\<close> flag, a
  directory listing, a file's encoding and content). Bodies are taken to be well-formed
  JSON of the documented shape.
\<close>

record repo =
  repo_name :: string
  full_name :: string
  owner_login :: "string option"

record item =
  item_type :: "string option"
  item_name :: "string option"
  item_path :: "string option"
  item_url :: "string option"

record response =
  status_code :: int
  ratelimit_remaining :: "int option"
  ratelimit_reset :: "int option"
  link :: "string option"
  body_text :: string
  repos_page :: "repo list"
  commit_sha :: "string option"
  truncated :: bool
  tree :: "item list"
  contents :: "item list"
  encoding :: "string option"
  file_content :: string

text \<open>
  The network is a finite sequence of events, one for each \<open>requests.get\<close> in the order
  of the calls: the call raises \<open>RequestException\<close> or returns a response. The request
  itself (URL, page number, parameters) is not part of the model: whatever is asked, the
  answer is the next event. The clock \<open>now\<close> (seconds, \<open>time.time()\<close>) moves only when the
  script sleeps.

  A run ends in one of three ways: it returns a value, an exception leaves the function, or
  it asks for an event when none is left (\<open>Starved\<close>: the sequence was too short to decide
  the run). A value or an exception comes with the clock and the events not yet consumed.
\<close>

datatype event = Raises | Responds response

datatype error = RequestException

datatype 'a run = Starved | Raised error real "event list" | Returned 'a real "event list"

section \<open>RateLimiter: \<open>handle_rate_limiting\<close>\<close>

definition lower_chr :: "char \<Rightarrow> char" where
  "lower_chr c = (let n = (of_char c :: nat) in if 65 \<le> n \<and> n \<le> 90 then char_of (n + 32) else c)"

text \<open>\<open>s.lower()\<close>\<close>

definition lower :: "string \<Rightarrow> string" where
  "lower s = map lower_chr s"

text \<open>
  The result is the retry signal and the clock after the call: \<open>time.sleep(wait_time)\<close>
  moves the clock by \<open>wait_time\<close>.
\<close>

definition handle_rate_limiting :: "response \<Rightarrow> real \<Rightarrow> bool \<times> real" where
  "handle_rate_limiting response now =
     (case ratelimit_remaining response of
        Some remaining \<Rightarrow>
          if remaining = 0 \<or>
             (status_code response = 403 \<and>
              str_contains (lower (body_text response)) ''rate limit exceeded'')
          then
            let reset_time = (case ratelimit_reset response of
                                Some t \<Rightarrow> t
                              | None \<Rightarrow> \<lfloor>now + 3600\<rfloor>);
                wait_time = max (of_int reset_time - now) 0 + 1
            in (True, now + wait_time)
          else (False, now)
      | None \<Rightarrow> (False, now))"

section \<open>ManifestLocator: \<open>find_file_in_branch\<close>\<close>

text \<open>
  \<open>base64.b64decode(...).decode('utf-8', errors='replace')\<close> is a parameter of the model:
  \<open>decode\<close> gives the decoded text, or \<open>None\<close> when the library call raises (the
  exception is caught and the function returns \<open>None\<close>).
\<close>

definition find_file_in_branch ::
    "(string \<Rightarrow> string option) \<Rightarrow> real \<Rightarrow> event list \<Rightarrow> string option run" where
  "find_file_in_branch decode now events =
     (case events of
        [] \<Rightarrow> Starved
      | Raises # rest \<Rightarrow> Raised RequestException now rest
      | Responds file_response # rest \<Rightarrow>
          (case handle_rate_limiting file_response now of
             (True, now') \<Rightarrow> Returned None now' rest
           | (False, now') \<Rightarrow>
               if status_code file_response \<noteq> 200 then Returned None now' rest
               else if encoding file_response = Some ''base64''
               then Returned (decode (file_content file_response)) now' rest
               else Returned None now' rest))"

section \<open>BranchTreeResolver: \<open>get_branch_tree\<close> and its fallback\<close>

text \<open>\<open>s.endswith(suffix)\<close>\<close>

definition endswith :: "string \<Rightarrow> string \<Rightarrow> bool" where
  "endswith s suffix = startswith (rev s) (rev suffix)"

text \<open>\<open>d.get(key, '')\<close>\<close>

definition get_or_empty :: "string option \<Rightarrow> string" where
  "get_or_empty v = (case v of None \<Rightarrow> [] | Some s \<Rightarrow> s)"

definition is_python_file :: "item \<Rightarrow> bool" where
  "is_python_file it =
     (item_type it = Some ''file'' \<and> endswith (get_or_empty (item_name it)) ''.py'')"

definition as_blob :: "item \<Rightarrow> item" where
  "as_blob it = \<lparr>item_type = Some ''blob'', item_name = None,
                 item_path = item_path it, item_url = item_url it\<rparr>"

definition get_directory_python_files :: "real \<Rightarrow> event list \<Rightarrow> item list run" where
  "get_directory_python_files now events =
     (case events of
        [] \<Rightarrow> Starved
      | Raises # rest \<Rightarrow> Returned [] now rest
      | Responds dir_response # rest \<Rightarrow>
          if status_code dir_response \<noteq> 200 then Returned [] now rest
          else Returned (map as_blob (filter is_python_file (contents dir_response))) now rest)"

definition important_dirs :: "string list" where
  "important_dirs = [''src'', ''app'', ''lib'', ''core'', ''models'', ''utils'']"

text \<open>The loop \<open>for item in root_contents\<close>.\<close>

fun walk_root :: "item list \<Rightarrow> item list \<Rightarrow> real \<Rightarrow> event list \<Rightarrow> item list run" where
  "walk_root [] python_files now events = Returned python_files now events"
| "walk_root (it # items) python_files now events =
     (if is_python_file it then walk_root items (python_files @ [as_blob it]) now events
      else if item_type it = Some ''dir''
             \<and> (case item_name it of None \<Rightarrow> False | Some n \<Rightarrow> n \<in> set important_dirs)
      then (case get_directory_python_files now events of
              Starved \<Rightarrow> Starved
            | Raised e t r \<Rightarrow> Raised e t r
            | Returned dir_files t r \<Rightarrow> walk_root items (python_files @ dir_files) t r)
      else walk_root items python_files now events)"

text \<open>The loop \<open>for dir_name in ['src', 'app', 'lib']\<close>.\<close>

fun probe_dirs :: "string list \<Rightarrow> item list \<Rightarrow> real \<Rightarrow> event list \<Rightarrow> item list run" where
  "probe_dirs [] python_files now events = Returned python_files now events"
| "probe_dirs (dir_name # dirs) python_files now events =
     (case get_directory_python_files now events of
        Starved \<Rightarrow> Starved
      | Raised e t r \<Rightarrow> Raised e t r
      | Returned dir_files t r \<Rightarrow> probe_dirs dirs (python_files @ dir_files) t r)"

definition get_python_files_alternative :: "real \<Rightarrow> event list \<Rightarrow> item list run" where
  "get_python_files_alternative now events =
     (case events of
        [] \<Rightarrow> Starved
      | Raises # rest \<Rightarrow> Returned [] now rest
      | Responds root_response # rest \<Rightarrow>
          (case handle_rate_limiting root_response now of
             (True, now') \<Rightarrow> Returned [] now' rest
           | (False, now') \<Rightarrow>
               if status_code root_response \<noteq> 200 then Returned [] now' rest
               else (case walk_root (contents root_response) [] now' rest of
                       Starved \<Rightarrow> Starved
                     | Raised e t r \<Rightarrow> Raised e t r
                     | Returned python_files t r \<Rightarrow>
                         if length python_files < 5
                         then probe_dirs [''src'', ''app'', ''lib''] python_files t r
                         else Returned python_files t r)))"

definition is_python_blob :: "item \<Rightarrow> bool" where
  "is_python_blob it =
     (item_type it = Some ''blob'' \<and> endswith (get_or_empty (item_path it)) ''.py'')"

text \<open>
  The loop \<open>for attempt in range(max_retries)\<close> over the attempts that are left; after the
  last one the function falls through to the fallback.
\<close>

fun attempts :: "nat list \<Rightarrow> real \<Rightarrow> event list \<Rightarrow> item list run" where
  "attempts [] now events = get_python_files_alternative now events"
| "attempts (attempt # later) now events =
     (case events of
        [] \<Rightarrow> Starved
      | Raises # rest \<Rightarrow> attempts later (now + 2 ^ attempt) rest
      | Responds ref_response # rest \<Rightarrow>
          (case handle_rate_limiting ref_response now of
             (True, now') \<Rightarrow> attempts later now' rest
           | (False, now') \<Rightarrow>
               if status_code ref_response \<noteq> 200 then Returned [] now' rest
               else if commit_sha ref_response = None \<or> commit_sha ref_response = Some []
               then Returned [] now' rest
               else
                 (case rest of
                    [] \<Rightarrow> Starved
                  | Raises # rest' \<Rightarrow> get_python_files_alternative now' rest'
                  | Responds tree_response # rest' \<Rightarrow>
                      (case handle_rate_limiting tree_response now' of
                         (True, now'') \<Rightarrow> attempts later now'' rest'
                       | (False, now'') \<Rightarrow>
                           if status_code tree_response \<noteq> 200
                           then get_python_files_alternative now'' rest'
                           else if truncated tree_response
                           then get_python_files_alternative now'' rest'
                           else Returned (filter is_python_blob (tree tree_response))
                                         now'' rest'))))"

definition max_retries :: nat where
  "max_retries = 3"

definition get_branch_tree :: "real \<Rightarrow> event list \<Rightarrow> item list run" where
  "get_branch_tree now events = attempts [0..<max_retries] now events"

section \<open>PaginatedFetcher: \<open>get_all_org_repos\<close>\<close>

record config =
  github_token :: "string option"
  org_name :: "string option"

definition per_page :: nat where
  "per_page = 100"

text \<open>\<open>limit and n >= limit\<close>: a limit of \<open>None\<close> or \<open>0\<close> is no limit.\<close>

definition limit_reached :: "int option \<Rightarrow> nat \<Rightarrow> bool" where
  "limit_reached limit n = (case limit of None \<Rightarrow> False | Some l \<Rightarrow> l \<noteq> 0 \<and> int n \<ge> l)"

text \<open>
  The loop \<open>for repo in repos_page\<close>: the repositories of the page whose name is not yet in
  \<open>existing_names\<close>, each name added to the set as it is taken.
\<close>

fun collect_new :: "string set \<Rightarrow> repo list \<Rightarrow> repo list" where
  "collect_new existing_names [] = []"
| "collect_new existing_names (r # page) =
     (if repo_name r \<notin> existing_names
      then r # collect_new (insert (repo_name r) existing_names) page
      else collect_new existing_names page)"

text \<open>The loop \<open>while True\<close> over the pages of one endpoint.\<close>

fun fetch_pages ::
    "string \<Rightarrow> string \<Rightarrow> int option \<Rightarrow> repo list \<Rightarrow> real \<Rightarrow> event list \<Rightarrow> repo list run" where
  "fetch_pages org endpoint_base limit all_repos now [] = Starved"
| "fetch_pages org endpoint_base limit all_repos now (Raises # rest) =
     Raised RequestException now rest"
| "fetch_pages org endpoint_base limit all_repos now (Responds response # rest) =
     (case handle_rate_limiting response now of
        (True, now') \<Rightarrow> fetch_pages org endpoint_base limit all_repos now' rest
      | (False, now') \<Rightarrow>
          if status_code response \<noteq> 200 then Returned all_repos now' rest
          else if repos_page response = [] then Returned all_repos now' rest
          else
            let page = (if str_contains endpoint_base ''user/repos''
                        then filter (\<lambda>r. owner_login r = Some org) (repos_page response)
                        else repos_page response);
                all_repos' = all_repos @ collect_new (set (map repo_name all_repos)) page
            in if limit_reached limit (length all_repos') then Returned all_repos' now' rest
               else if (case link response of
                          Some links \<Rightarrow> \<not> str_contains links (''rel='' @ [CHR 0x22] @ ''next'' @ [CHR 0x22])
                        | None \<Rightarrow> length page < per_page)
               then Returned all_repos' now' rest
               else fetch_pages org endpoint_base limit all_repos' (now' + 1 / 2) rest)"

text \<open>The loop \<open>for endpoint_base in endpoints\<close>.\<close>

fun fetch_endpoints ::
    "string \<Rightarrow> string list \<Rightarrow> int option \<Rightarrow> repo list \<Rightarrow> real \<Rightarrow> event list \<Rightarrow> repo list run" where
  "fetch_endpoints org [] limit all_repos now events = Returned all_repos now events"
| "fetch_endpoints org (endpoint_base # endpoints) limit all_repos now events =
     (if limit_reached limit (length all_repos) then Returned all_repos now events
      else (case fetch_pages org endpoint_base limit all_repos now events of
              Starved \<Rightarrow> Starved
            | Raised e t r \<Rightarrow> Raised e t r
            | Returned all_repos' t r \<Rightarrow> fetch_endpoints org endpoints limit all_repos' t r))"

text \<open>\<open>all_repos[:limit]\<close>, applied when \<open>limit and len(all_repos) > limit\<close>.\<close>

definition apply_limit :: "int option \<Rightarrow> repo list \<Rightarrow> repo list" where
  "apply_limit limit all_repos =
     (case limit of
        None \<Rightarrow> all_repos
      | Some l \<Rightarrow>
          if l \<noteq> 0 \<and> int (length all_repos) > l
          then (if l \<ge> 0 then take (nat l) all_repos
                else take (length all_repos - nat (- l)) all_repos)
          else all_repos)"

definition endpoints_of :: "string \<Rightarrow> string list" where
  "endpoints_of org = [''https://api.github.com/orgs/'' @ org @ ''/repos'',
                       ''https://api.github.com/user/repos'']"

text \<open>
  The result \<open>None\<close> is Python's \<open>None\<close>: missing configuration, failed authentication, or
  a \<open>RequestException\<close> caught by the function.
\<close>

definition get_all_org_repos ::
    "config \<Rightarrow> int option \<Rightarrow> real \<Rightarrow> event list \<Rightarrow> repo list option run" where
  "get_all_org_repos cfg limit now events =
     (case (github_token cfg, org_name cfg) of
        (Some token, Some org) \<Rightarrow>
          if token = [] \<or> org = [] then Returned None now events
          else
            (case events of
               [] \<Rightarrow> Starved
             | Raises # rest \<Rightarrow> Returned None now rest
             | Responds user_response # rest \<Rightarrow>
                 if status_code user_response \<noteq> 200 then Returned None now rest
                 else (case fetch_endpoints org (endpoints_of org) limit [] now rest of
                         Starved \<Rightarrow> Starved
                       | Raised e t r \<Rightarrow> Returned None t r
                       | Returned all_repos t r \<Rightarrow> Returned (Some (apply_limit limit all_repos)) t r))
      | _ \<Rightarrow> Returned None now events)"

text \<open>Example data: a plain successful response with no headers and an empty body.\<close>

definition plain_response :: response where
  "plain_response =
     \<lparr>status_code = 200, ratelimit_remaining = None, ratelimit_reset = None, link = None,
      body_text = [], repos_page = [], commit_sha = None, truncated = False, tree = [],
      contents = [], encoding = None, file_content = []\<rparr>"

text \<open>
  More example data: a branch lookup that succeeds, a truncated tree that lists one file, a
  root directory listing with one Python file, and a response with status 404.
\<close>

definition ref_found :: response where
  "ref_found = plain_response\<lparr>commit_sha := Some ''4f2a9c1''\<rparr>"

definition tree_truncated :: response where
  "tree_truncated =
     plain_response\<lparr>truncated := True,
       tree := [\<lparr>item_type = Some ''blob'', item_name = None,
                 item_path = Some ''pkg/partial.py'', item_url = None\<rparr>]\<rparr>"

definition root_listing :: response where
  "root_listing =
     plain_response\<lparr>contents :=
       [\<lparr>item_type = Some ''file'', item_name = Some ''main.py'',
          item_path = Some ''main.py'', item_url = None\<rparr>]\<rparr>"

definition not_found :: response where
  "not_found = plain_response\<lparr>status_code := 404\<rparr>"

text \<open>
  Example data for the repository listing: a configuration, three repositories of the
  organization, and a second entry that has the name of the first.
\<close>

definition acme_config :: config where
  "acme_config = \<lparr>github_token = Some ''ghp_token'', org_name = Some ''acme''\<rparr>"

definition repo_api :: repo where
  "repo_api = \<lparr>repo_name = ''api'', full_name = ''acme/api'', owner_login = Some ''acme''\<rparr>"

definition repo_web :: repo where
  "repo_web = \<lparr>repo_name = ''web'', full_name = ''acme/web'', owner_login = Some ''acme''\<rparr>"

definition repo_cli :: repo where
  "repo_cli = \<lparr>repo_name = ''cli'', full_name = ''acme/cli'', owner_login = Some ''acme''\<rparr>"

definition repo_api_again :: repo where
  "repo_api_again =
     \<lparr>repo_name = ''api'', full_name = ''acme/api-renamed'', owner_login = Some ''acme''\<rparr>"

text \<open>
  A listing in two pages, the first with a \<open>Link\<close> header that announces the next, and
  the page of the second endpoint, which repeats a name and adds a repository.
\<close>

definition repo_docs :: repo where
  "repo_docs = \<lparr>repo_name = ''docs'', full_name = ''acme/docs'', owner_login = Some ''acme''\<rparr>"

definition first_page :: response where
  "first_page =
     plain_response\<lparr>repos_page := [repo_api, repo_web],
       link := Some (''<https://api.github.com/organizations/7/repos?page=2>; rel=''
                     @ [CHR 0x22] @ ''next'' @ [CHR 0x22])\<rparr>"

definition second_page :: response where
  "second_page = plain_response\<lparr>repos_page := [repo_cli]\<rparr>"

definition user_page :: response where
  "user_page = plain_response\<lparr>repos_page := [repo_api_again, repo_docs]\<rparr>"

section \<open>Facts about the string operations\<close>

lemma startswith_iff: "startswith s p \<longleftrightarrow> (\<exists>t. s = p @ t)"
  by (induction s p rule: startswith.induct) auto

lemma partition_str_Some: "partition_str s sep = Some (a, b) \<Longrightarrow> s = a @ sep @ b"
proof (induction s arbitrary: a b)
  case Nil
  then show ?case by (simp split: if_splits)
next
  case (Cons c cs)
  show ?case
  proof (cases "startswith (c # cs) sep")
    case True
    then obtain t where t: "c # cs = sep @ t" using startswith_iff by blast
    from Cons.prems True have "a = []" "b = drop (length sep) (c # cs)" by auto
    with t show ?thesis by simp
  next
    case False
    with Cons.prems obtain a' where "partition_str cs sep = Some (a', b)" "a = c # a'"
      by (auto split: option.splits)
    with Cons.IH show ?thesis by simp
  qed
qed

lemma partition_str_Nil_prefix: "partition_str s sep = Some ([], b) \<Longrightarrow> startswith s sep"
  by (cases s) (auto split: if_splits option.splits)

lemma partition_str_absent: "c \<in> set sep \<Longrightarrow> c \<notin> set s \<Longrightarrow> partition_str s sep = None"
proof (cases "partition_str s sep")
  case None then show ?thesis by simp
next
  case (Some p)
  assume c: "c \<in> set sep" "c \<notin> set s"
  obtain a b where "p = (a, b)" by (cases p)
  with Some have "s = a @ sep @ b" using partition_str_Some by blast
  with c show ?thesis by auto
qed

lemma split_first_no_sep: "c \<notin> set (split_first s [c])"
proof (induction s)
  case Nil show ?case by (simp add: split_first_def)
next
  case (Cons x xs)
  then show ?case by (auto simp: split_first_def split: option.splits)
qed

lemma set_strip: "set (strip s) \<subseteq> set s"
proof
  fix x assume "x \<in> set (strip s)"
  then have "x \<in> set (dropWhile is_space (rev (dropWhile is_space s)))" by (simp add: strip_def)
  then have "x \<in> set (rev (dropWhile is_space s))" by (rule set_dropWhileD)
  then have "x \<in> set (dropWhile is_space s)" by simp
  then show "x \<in> set s" by (rule set_dropWhileD)
qed

lemma dropWhile_keeps_last: "dropWhile P xs \<noteq> [] \<Longrightarrow> last (dropWhile P xs) = last xs"
  by (induction xs) (auto split: if_splits)


lemma strip_hd: "s \<noteq> [] \<Longrightarrow> \<not> is_space (hd s) \<Longrightarrow> strip s \<noteq> [] \<and> hd (strip s) = hd s"
proof -
  assume ne: "s \<noteq> []" and h: "\<not> is_space (hd s)"
  then have 1: "dropWhile is_space s = s" by (cases s) auto
  have "last (rev s) = hd s" using ne by (simp add: last_rev)
  with h ne have "\<exists>x \<in> set (rev s). \<not> is_space x" by (metis hd_in_set set_rev)
  then have 2: "dropWhile is_space (rev s) \<noteq> []" by simp
  then have "last (dropWhile is_space (rev s)) = last (rev s)" by (rule dropWhile_keeps_last)
  with 2 ne show ?thesis by (simp add: strip_def 1 hd_rev last_rev)
qed

lemma strip_ends: "strip s \<noteq> [] \<Longrightarrow> \<not> is_space (hd (strip s)) \<and> \<not> is_space (last (strip s))"
proof -
  assume ne: "strip s \<noteq> []"
  let ?t = "dropWhile is_space s"
  let ?u = "dropWhile is_space (rev ?t)"
  from ne have u: "?u \<noteq> []" by (simp add: strip_def)
  have t: "?t \<noteq> []"
  proof
    assume "?t = []"
    with u show False by simp
  qed
  have hu: "\<not> is_space (hd ?u)" using u by (rule hd_dropWhile)
  have ht: "\<not> is_space (hd ?t)" using t by (rule hd_dropWhile)
  have "last ?u = last (rev ?t)" using u by (rule dropWhile_keeps_last)
  then have "last ?u = hd ?t" using t by (simp add: last_rev)
  with hu ht u show ?thesis by (simp add: strip_def hd_rev last_rev)
qed


section \<open>Facts about \<open>parse_requirement_line\<close>\<close>

lemma match_operators_Some:
  "match_operators ops line = Some info \<Longrightarrow>
     \<exists>op \<in> set ops. \<exists>p0 p1. partition_str line op = Some (p0, p1) \<and>
        info = \<lparr>name = strip p0, version = op @ strip p1, raw = line\<rparr>"
  by (induction ops) (auto split: option.splits)

lemma clean_line_no_hash: "CHR ''#'' \<notin> set (strip (split_first line0 ''#''))"
  using set_strip [of "split_first line0 ''#''"] split_first_no_sep [of "CHR ''#''" line0] by blast

lemma no_egg: "partition_str (strip (split_first line0 ''#'')) ''#egg='' = None"
  by (rule partition_str_absent [of "CHR ''#''"]) (simp_all add: clean_line_no_hash)

lemma parse_cases:
  assumes "parse_requirement_line line0 = Some d"
  defines "line \<equiv> strip (split_first line0 ''#'')"
  shows "line \<noteq> [] \<and> raw d = line \<and>
     ((name d = line \<and> version d = ''url'') \<or>
      (\<exists>op \<in> set operators. \<exists>p0 p1. partition_str line op = Some (p0, p1) \<and>
          name d = strip p0 \<and> version d = op @ strip p1) \<or>
      (name d = strip line \<and> version d = ''latest'' \<and> match_operators operators line = None))"
proof -
  have ne: "line \<noteq> []" using assms by (auto simp: parse_requirement_line_def Let_def split: if_splits)
  have egg: "partition_str line ''#egg='' = None" unfolding line_def by (rule no_egg)
  show ?thesis
  proof (cases "startswith line ''git+'' \<or> startswith line ''http''")
    case True
    with assms(1) ne egg have "d = \<lparr>name = line, version = ''url'', raw = line\<rparr>"
      by (simp add: parse_requirement_line_def line_def [symmetric] Let_def)
    with ne show ?thesis by simp
  next
    case False
    show ?thesis
    proof (cases "match_operators operators line")
      case None
      with assms(1) ne False have "d = \<lparr>name = strip line, version = ''latest'', raw = line\<rparr>"
        by (simp add: parse_requirement_line_def line_def [symmetric] Let_def)
      with ne None show ?thesis by simp
    next
      case (Some info)
      with assms(1) ne False have "d = info"
        by (simp add: parse_requirement_line_def line_def [symmetric] Let_def)
      with Some have "match_operators operators line = Some d" by simp
      then obtain op p0 p1 where op: "op \<in> set operators" "partition_str line op = Some (p0, p1)"
        and d: "d = \<lparr>name = strip p0, version = op @ strip p1, raw = line\<rparr>"
        using match_operators_Some by blast
      from d have "name d = strip p0" "version d = op @ strip p1" "raw d = line" by simp_all
      with op ne show ?thesis by blast
    qed
  qed
qed



section \<open>Claims about the import extractor\<close>

text \<open>
  Every extracted pair holds a name without a dot (the segment before the first dot of an
  imported module), and its flag says whether the name is in the fixed standard-library set.
\<close>

lemma extract_imports_pairs:
  assumes "(imp, is_std) \<in> extract_imports_from_python_content content"
  shows "is_std = (imp \<in> std_lib) \<and> CHR ''.'' \<notin> set imp \<and> imp \<noteq> []"
proof -
  from assms obtain line where "imp \<in> set (line_top_levels line)" and std: "is_std = (imp \<in> std_lib)"
    by (auto simp: extract_imports_from_python_content_def Let_def)
  then obtain m where "imp \<in> set (match_top_levels m)"
    by (auto simp: line_top_levels_def split: if_splits)
  then obtain module where "imp = split_first (strip module) ''.''" and "imp \<noteq> []"
    by (auto simp: match_top_levels_def)
  with std show ?thesis using split_first_no_sep [of "CHR ''.''" "strip module"] by simp
qed

text \<open>
  C9. For the source text made of the two lines \<open>import os, sys\<close> and
  \<open>from numpy.linalg import inv\<close>, \<open>extract_imports_from_python_content\<close> returns exactly
  the pairs \<open>(os, true)\<close>, \<open>(sys, true)\<close> and \<open>(numpy, false)\<close>: the two names of the
  comma-separated import are extracted one by one, \<open>numpy.linalg\<close> is cut at its first dot,
  and each name is classified by membership in the standard-library set.
\<close>

theorem extract_imports_example:
  "extract_imports_from_python_content
     (''import os, sys'' @ [CHR 0x0A] @ ''from numpy.linalg import inv'') =
   {(''os'', True), (''sys'', True), (''numpy'', False)}"
  by code_simp

section \<open>Claims about the rate limiter\<close>

lemma handle_rate_limiting_no_pause:
  "\<not> fst (handle_rate_limiting response now) \<Longrightarrow> handle_rate_limiting response now = (False, now)"
  by (auto simp: handle_rate_limiting_def Let_def split: option.splits if_splits)

text \<open>
  C4 as stated fails: the function looks at nothing unless the response carries the
  remaining-quota header. A response with status 403 and a rate-limit-exceeded message but
  without that header gets no pause and no retry signal.
\<close>

theorem rate_limit_header_absent_counterexample:
  "handle_rate_limiting
     (plain_response\<lparr>status_code := 403, body_text := ''API rate limit exceeded for user''\<rparr>) 100
   = (False, 100)
   \<and> str_contains (lower ''API rate limit exceeded for user'') ''rate limit exceeded''"
  by code_simp

text \<open>
  C4, amended. A response without the remaining-quota header returns false at once. For a
  response with the header: if the remaining quota is zero, or the status is 403 and the
  lower-cased body contains \<open>rate limit exceeded\<close>, the function blocks for
  \<open>max(reset_epoch - now, 0) + 1\<close> seconds (the reset epoch is the reset header, or
  \<open>now + 3600\<close> cut to an integer when that header is absent) and returns true; otherwise
  it returns false at once. With \<open>remaining = 0\<close> and \<open>reset = now + 5\<close> it blocks for 6
  seconds and signals retry; with \<open>remaining = 50\<close> on a successful response it returns
  at once.
\<close>

theorem handle_rate_limiting_contract:
  "(ratelimit_remaining r = None \<longrightarrow> handle_rate_limiting r now = (False, now))
   \<and> (\<forall>remaining. ratelimit_remaining r = Some remaining \<longrightarrow>
        handle_rate_limiting r now =
          (if remaining = 0 \<or>
              (status_code r = 403 \<and> str_contains (lower (body_text r)) ''rate limit exceeded'')
           then (True, now + (max (real_of_int (case ratelimit_reset r of
                                                  Some t \<Rightarrow> t
                                                | None \<Rightarrow> \<lfloor>now + 3600\<rfloor>) - now) 0 + 1))
           else (False, now)))"
  by (simp add: handle_rate_limiting_def Let_def)

theorem handle_rate_limiting_contract_witness:
  "handle_rate_limiting (plain_response\<lparr>ratelimit_remaining := Some 0, ratelimit_reset := Some 105\<rparr>) 100
     = (True, 106)
   \<and> handle_rate_limiting (plain_response\<lparr>ratelimit_remaining := Some 50\<rparr>) 100 = (False, 100)
   \<and> handle_rate_limiting plain_response 100 = (False, 100)"
proof -
  let ?r0 = "plain_response\<lparr>ratelimit_remaining := Some 0, ratelimit_reset := Some 105\<rparr>"
  let ?r50 = "plain_response\<lparr>ratelimit_remaining := Some 50\<rparr>"
  have a: "ratelimit_remaining ?r0 = Some 0" "ratelimit_reset ?r0 = Some 105" by simp_all
  have b: "ratelimit_remaining ?r50 = Some 50" "status_code ?r50 = 200"
    by (simp_all add: plain_response_def)
  have c: "ratelimit_remaining plain_response = None" by (simp add: plain_response_def)
  from handle_rate_limiting_contract [of ?r0 100] a
  have 1: "handle_rate_limiting ?r0 100 = (True, 106)" by simp
  from handle_rate_limiting_contract [of ?r50 100] b
  have 2: "handle_rate_limiting ?r50 100 = (False, 100)" by simp
  from handle_rate_limiting_contract [of plain_response 100] c
  have 3: "handle_rate_limiting plain_response 100 = (False, 100)" by simp
  from 1 2 3 show ?thesis by simp
qed

section \<open>Claims about the manifest lookup\<close>

text \<open>An absent file, a response with a status other than 200, is reported as \<open>None\<close>.\<close>

lemma find_file_in_branch_absent:
  assumes "\<not> fst (handle_rate_limiting file_response now)"
    and "status_code file_response \<noteq> 200"
  shows "find_file_in_branch decode now (Responds file_response # rest) = Returned None now rest"
  using assms handle_rate_limiting_no_pause [OF assms(1)] by (simp add: find_file_in_branch_def)

text \<open>
  C10. When the response to the file request makes \<open>handle_rate_limiting\<close> pause and
  signal retry, \<open>find_file_in_branch\<close> returns \<open>None\<close>, the value it also returns for an
  absent file, and issues no second request: the events after the response are left as
  they were. An example is a successful response that carries the file and the last unit
  of quota: the file is reported absent, where the same response with quota left gives
  its content.
\<close>

theorem find_file_in_branch_pause:
  assumes "fst (handle_rate_limiting file_response now)"
  shows "find_file_in_branch decode now (Responds file_response # rest) =
           Returned None (snd (handle_rate_limiting file_response now)) rest"
proof -
  obtain pause t where h: "handle_rate_limiting file_response now = (pause, t)"
    by (cases "handle_rate_limiting file_response now")
  with assms have "pause" by simp
  with h show ?thesis by (simp add: find_file_in_branch_def)
qed

theorem find_file_in_branch_pause_witness:
  "find_file_in_branch (\<lambda>s. if s = ''Zmxhc2s='' then Some ''flask'' else None) 100
     [Responds (plain_response\<lparr>ratelimit_remaining := Some 0, ratelimit_reset := Some 105,
                               encoding := Some ''base64'', file_content := ''Zmxhc2s=''\<rparr>)]
     = Returned None 106 []
   \<and> find_file_in_branch (\<lambda>s. if s = ''Zmxhc2s='' then Some ''flask'' else None) 100
     [Responds (plain_response\<lparr>ratelimit_remaining := Some 50, ratelimit_reset := Some 105,
                               encoding := Some ''base64'', file_content := ''Zmxhc2s=''\<rparr>)]
     = Returned (Some ''flask'') 100 []"
proof -
  let ?r = "plain_response\<lparr>ratelimit_remaining := Some 0, ratelimit_reset := Some 105,
                               encoding := Some ''base64'', file_content := ''Zmxhc2s=''\<rparr>"
  have h: "handle_rate_limiting ?r 100 = (True, 106)"
    by (simp add: handle_rate_limiting_def)
  then have p: "fst (handle_rate_limiting ?r 100)" by simp
  have 1: "find_file_in_branch (\<lambda>s. if s = ''Zmxhc2s='' then Some ''flask'' else None) 100 [Responds ?r]
     = Returned None 106 []"
    using find_file_in_branch_pause [OF p, of "\<lambda>s. if s = ''Zmxhc2s='' then Some ''flask'' else None" "[]"] h
    by simp
  have 2: "find_file_in_branch (\<lambda>s. if s = ''Zmxhc2s='' then Some ''flask'' else None) 100
     [Responds (plain_response\<lparr>ratelimit_remaining := Some 50, ratelimit_reset := Some 105,
                               encoding := Some ''base64'', file_content := ''Zmxhc2s=''\<rparr>)]
     = Returned (Some ''flask'') 100 []"
    by (simp add: find_file_in_branch_def handle_rate_limiting_def plain_response_def)
  from 1 2 show ?thesis by simp
qed

section \<open>Claims about the branch tree resolver\<close>


lemma fallback_example_at:
  "get_python_files_alternative now
     [Responds root_listing, Responds not_found, Responds not_found, Responds not_found] =
   Returned [\<lparr>item_type = Some ''blob'', item_name = None,
              item_path = Some ''main.py'', item_url = None\<rparr>] now []"
  by (simp add: get_python_files_alternative_def handle_rate_limiting_def root_listing_def
        not_found_def plain_response_def get_directory_python_files_def is_python_file_def
        endswith_def get_or_empty_def as_blob_def)

text \<open>
  C1 as stated fails when the truncated tree response also triggers a rate-limit pause:
  here it is a successful response that carries the last unit of quota. The function sleeps
  and starts the next attempt without reading the body; the next branch lookup answers 404
  and the function returns the empty list. The fallback is never invoked: the events it
  would consume are left, and on them it would find a file.
\<close>

theorem truncated_pause_counterexample:
  "get_branch_tree 0
     [Responds ref_found,
      Responds (tree_truncated\<lparr>ratelimit_remaining := Some 0, ratelimit_reset := Some 5\<rparr>),
      Responds not_found,
      Responds root_listing, Responds not_found, Responds not_found, Responds not_found] =
   Returned [] 6 [Responds root_listing, Responds not_found, Responds not_found, Responds not_found]
   \<and> truncated (tree_truncated\<lparr>ratelimit_remaining := Some 0, ratelimit_reset := Some 5\<rparr>)
   \<and> get_python_files_alternative 6
       [Responds root_listing, Responds not_found, Responds not_found, Responds not_found] =
     Returned [\<lparr>item_type = Some ''blob'', item_name = None,
                item_path = Some ''main.py'', item_url = None\<rparr>] 6 []"
proof -
  have "get_branch_tree 0
     [Responds ref_found,
      Responds (tree_truncated\<lparr>ratelimit_remaining := Some 0, ratelimit_reset := Some 5\<rparr>),
      Responds not_found,
      Responds root_listing, Responds not_found, Responds not_found, Responds not_found] =
   Returned [] 6 [Responds root_listing, Responds not_found, Responds not_found, Responds not_found]"
    by (simp add: get_branch_tree_def max_retries_def upt_rec handle_rate_limiting_def
          ref_found_def tree_truncated_def not_found_def plain_response_def)
  moreover have "truncated (tree_truncated\<lparr>ratelimit_remaining := Some 0, ratelimit_reset := Some 5\<rparr>)"
    by (simp add: tree_truncated_def)
  ultimately show ?thesis using fallback_example_at [of 6] by simp
qed

text \<open>
  C1, amended. When the branch lookup has succeeded and the recursive-tree response
  carries \<open>truncated = true\<close>, the attempt, whichever it is, never returns the tree list
  of that response. If the response triggers no rate-limit pause, the result is what
  \<open>get_python_files_alternative\<close> returns on the events that follow: the fallback is
  invoked. If the response triggers a rate-limit pause, the attempt is abandoned after the
  pause and the result is that of the attempts that are left, which end in the fallback
  when none is left.
\<close>

theorem get_branch_tree_truncated:
  assumes "\<not> fst (handle_rate_limiting ref_response now)"
    and "status_code ref_response = 200"
    and "commit_sha ref_response = Some sha" and "sha \<noteq> []"
    and "truncated tree_response"
  shows "attempts (attempt # later) now (Responds ref_response # Responds tree_response # rest) =
           (if fst (handle_rate_limiting tree_response now)
            then attempts later (snd (handle_rate_limiting tree_response now)) rest
            else get_python_files_alternative now rest)
       \<and> get_branch_tree now (Responds ref_response # Responds tree_response # rest) =
           (if fst (handle_rate_limiting tree_response now)
            then attempts [1, 2] (snd (handle_rate_limiting tree_response now)) rest
            else get_python_files_alternative now rest)
       \<and> attempts [] now rest = get_python_files_alternative now rest"
proof -
  have r: "handle_rate_limiting ref_response now = (False, now)"
    using assms(1) by (rule handle_rate_limiting_no_pause)
  have step: "attempts (a # l) now (Responds ref_response # Responds tree_response # rest) =
           (if fst (handle_rate_limiting tree_response now)
            then attempts l (snd (handle_rate_limiting tree_response now)) rest
            else get_python_files_alternative now rest)" for a l
  proof (cases "fst (handle_rate_limiting tree_response now)")
    case True
    then obtain now' where t: "handle_rate_limiting tree_response now = (True, now')"
      by (cases "handle_rate_limiting tree_response now") auto
    with assms(2,3,4) show ?thesis by (simp add: r)
  next
    case False
    then have t: "handle_rate_limiting tree_response now = (False, now)"
      by (rule handle_rate_limiting_no_pause)
    with assms(2,3,4,5) show ?thesis by (simp add: r)
  qed
  have "[0..<max_retries] = [0, 1, 2]" by (simp add: max_retries_def upt_rec)
  with step [of 0 "[1, 2]"] step [of attempt later] show ?thesis
    by (simp add: get_branch_tree_def)
qed

theorem get_branch_tree_truncated_witness:
  "get_branch_tree 0
     [Responds ref_found, Responds tree_truncated,
      Responds root_listing, Responds not_found, Responds not_found, Responds not_found] =
   Returned [\<lparr>item_type = Some ''blob'', item_name = None,
              item_path = Some ''main.py'', item_url = None\<rparr>] 0 []
   \<and> get_branch_tree 0
     [Responds ref_found,
      Responds (tree_truncated\<lparr>ratelimit_remaining := Some 0, ratelimit_reset := Some 5\<rparr>),
      Responds root_listing] =
     attempts [1, 2] 6 [Responds root_listing]
   \<and> truncated tree_truncated
   \<and> tree tree_truncated = [\<lparr>item_type = Some ''blob'', item_name = None,
                               item_path = Some ''pkg/partial.py'', item_url = None\<rparr>]"
proof -
  let ?paused = "tree_truncated\<lparr>ratelimit_remaining := Some 0, ratelimit_reset := Some 5\<rparr>"
  have 1: "\<not> fst (handle_rate_limiting ref_found 0)"
    by (simp add: handle_rate_limiting_def ref_found_def plain_response_def)
  have 2: "status_code ref_found = 200" by (simp add: ref_found_def plain_response_def)
  have 3: "commit_sha ref_found = Some ''4f2a9c1''" by (simp add: ref_found_def)
  have 4: "''4f2a9c1'' \<noteq> []" by simp
  have 5: "truncated tree_truncated" by (simp add: tree_truncated_def)
  have 6: "truncated ?paused" by (simp add: tree_truncated_def)
  have 7: "handle_rate_limiting tree_truncated 0 = (False, 0)"
    by (simp add: handle_rate_limiting_def tree_truncated_def plain_response_def)
  have 8: "handle_rate_limiting ?paused 0 = (True, 6)"
    by (simp add: handle_rate_limiting_def)
  have 9: "tree tree_truncated = [\<lparr>item_type = Some ''blob'', item_name = None,
                               item_path = Some ''pkg/partial.py'', item_url = None\<rparr>]"
    by (simp add: tree_truncated_def)
  from get_branch_tree_truncated [OF 1 2 3 4 5] 7 fallback_example_at [of 0]
  have a: "get_branch_tree 0
     [Responds ref_found, Responds tree_truncated,
      Responds root_listing, Responds not_found, Responds not_found, Responds not_found] =
   Returned [\<lparr>item_type = Some ''blob'', item_name = None,
              item_path = Some ''main.py'', item_url = None\<rparr>] 0 []" by simp
  from get_branch_tree_truncated [OF 1 2 3 4 6, of _ _ "[Responds root_listing]"] 8
  have b: "get_branch_tree 0 [Responds ref_found, Responds ?paused, Responds root_listing] =
     attempts [1, 2] 6 [Responds root_listing]" by simp
  from a b 5 9 show ?thesis by simp
qed




section \<open>Claims about the requirements parser\<close>

text \<open>
  C2. The claim asks that the line \<open>git+https://example.com/x.git#egg=foo\<close> parses to the
  name \<open>foo\<close> with the version sentinel \<open>git\<close>. The function first cuts the line at its
  first \<open>#\<close> (comment removal), which removes the \<open>#egg=foo\<close> fragment before the
  \<open>#egg=\<close> split is tried: the result is the whole URL as the name, with the sentinel
  \<open>url\<close>.
\<close>

theorem parse_requirement_line_egg_fragment:
  "parse_requirement_line ''git+https://example.com/x.git#egg=foo'' =
     Some \<lparr>name = ''git+https://example.com/x.git'', version = ''url'',
            raw = ''git+https://example.com/x.git''\<rparr>"
  by code_simp




text \<open>
  C8 as stated fails: a line that begins with a version operator is split at that
  operator, and the text before it, the name, is empty.
\<close>

theorem name_empty_counterexample:
  "parse_requirement_line ''==1.0'' = Some \<lparr>name = [], version = ''==1.0'', raw = ''==1.0''\<rparr>"
  by code_simp

text \<open>
  C8, amended. For every input line on which \<open>parse_requirement_line\<close> returns a
  requirement, the returned name is non-empty, provided that the line, once its comment
  and the surrounding whitespace are removed, does not begin with one of the version
  operators.
\<close>

theorem parse_requirement_line_name_nonempty:
  assumes "parse_requirement_line line0 = Some d"
    and "\<not> (\<exists>op \<in> set operators. startswith (strip (split_first line0 ''#'')) op)"
  shows "name d \<noteq> []"
proof -
  let ?line = "strip (split_first line0 ''#'')"
  note c = parse_cases [OF assms(1)]
  then have ne: "?line \<noteq> []" by simp
  then have hd: "\<not> is_space (hd ?line)" using strip_ends by blast
  from c consider "name d = ?line"
    | op p0 p1 where "op \<in> set operators" "partition_str ?line op = Some (p0, p1)" "name d = strip p0"
    | "name d = strip ?line" by blast
  then show ?thesis
  proof cases
    case 1 with ne show ?thesis by simp
  next
    case (2 op p0 p1)
    have "p0 \<noteq> []"
    proof
      assume "p0 = []"
      with 2 have "startswith ?line op" using partition_str_Nil_prefix by blast
      with 2(1) assms(2) show False by blast
    qed
    moreover from 2 have "?line = p0 @ op @ p1" using partition_str_Some by blast
    ultimately have "hd p0 = hd ?line" by (metis hd_append2)
    with hd \<open>p0 \<noteq> []\<close> 2 show ?thesis using strip_hd by metis
  next
    case 3 with ne hd show ?thesis using strip_hd by metis
  qed
qed

theorem parse_requirement_line_name_nonempty_witness:
  "parse_requirement_line ''  numpy >= 1.24'' =
     Some \<lparr>name = ''numpy'', version = ''>=1.24'', raw = ''numpy >= 1.24''\<rparr>
   \<and> \<not> (\<exists>op \<in> set operators. startswith (strip (split_first ''  numpy >= 1.24'' ''#'')) op)
   \<and> name \<lparr>name = ''numpy'', version = ''>=1.24'', raw = ''numpy >= 1.24''\<rparr> \<noteq> []"
proof -
  let ?d = "\<lparr>name = ''numpy'', version = ''>=1.24'', raw = ''numpy >= 1.24''\<rparr>"
  have p: "parse_requirement_line ''  numpy >= 1.24'' = Some ?d"
    by code_simp
  have h: "\<not> (\<exists>op \<in> set operators. startswith (strip (split_first ''  numpy >= 1.24'' ''#'')) op)"
    by code_simp
  from parse_requirement_line_name_nonempty [OF p h] p h show ?thesis by simp
qed

section \<open>Facts about the pagination loops\<close>

lemma collect_new_fresh:
  "x \<in> set (collect_new E page) \<Longrightarrow> repo_name x \<notin> E \<and> x \<in> set page"
  by (induction page arbitrary: E) (auto split: if_splits)

lemma collect_new_distinct: "distinct (map repo_name (collect_new E page))"
proof (induction page arbitrary: E)
  case Nil show ?case by simp
next
  case (Cons r page)
  show ?case
  proof (cases "repo_name r \<in> E")
    case True with Cons show ?thesis by simp
  next
    case False
    have "repo_name r \<notin> repo_name ` set (collect_new (insert (repo_name r) E) page)"
      using collect_new_fresh by fastforce
    with False Cons show ?thesis by simp
  qed
qed

lemma add_page_distinct:
  assumes "distinct (map repo_name all_repos)"
  shows "distinct (map repo_name (all_repos @ collect_new (set (map repo_name all_repos)) page))"
proof -
  let ?new = "collect_new (set (map repo_name all_repos)) page"
  have "set (map repo_name all_repos) \<inter> set (map repo_name ?new) = {}"
  proof (rule equals0I)
    fix n assume n: "n \<in> set (map repo_name all_repos) \<inter> set (map repo_name ?new)"
    then obtain x where x: "x \<in> set ?new" and nx: "n = repo_name x" by auto
    from collect_new_fresh [OF x] have "repo_name x \<notin> set (map repo_name all_repos)" by simp
    with n nx show False by simp
  qed
  with assms collect_new_distinct [of "set (map repo_name all_repos)" page]
  show ?thesis by (simp only: map_append distinct_append)
qed






text \<open>What one response does to the page loop.\<close>

lemma fetch_pages_Responds:
  assumes "fetch_pages org e limit acc now (Responds resp # rest) = Returned all t r"
  obtains (pause) now' where "handle_rate_limiting resp now = (True, now')"
      "fetch_pages org e limit acc now' rest = Returned all t r"
  | (stop) "handle_rate_limiting resp now = (False, now)" "all = acc" "t = now" "r = rest"
  | (last) page where "handle_rate_limiting resp now = (False, now)"
      "page = repos_page resp \<or> page = filter (\<lambda>r. owner_login r = Some org) (repos_page resp)"
      "all = acc @ collect_new (set (map repo_name acc)) page" "t = now" "r = rest"
  | (more) page where "handle_rate_limiting resp now = (False, now)"
      "page = repos_page resp \<or> page = filter (\<lambda>r. owner_login r = Some org) (repos_page resp)"
      "\<not> limit_reached limit (length (acc @ collect_new (set (map repo_name acc)) page))"
      "fetch_pages org e limit (acc @ collect_new (set (map repo_name acc)) page) (now + 1 / 2) rest
         = Returned all t r"
proof (cases "fst (handle_rate_limiting resp now)")
  case True
  then obtain now' where h: "handle_rate_limiting resp now = (True, now')"
    by (cases "handle_rate_limiting resp now") auto
  with assms have "fetch_pages org e limit acc now' rest = Returned all t r" by simp
  with h show ?thesis by (rule pause)
next
  case False
  then have h: "handle_rate_limiting resp now = (False, now)"
    by (auto simp: handle_rate_limiting_def Let_def split: option.splits if_splits)
  define page where "page = (if str_contains e ''user/repos''
                        then filter (\<lambda>r. owner_login r = Some org) (repos_page resp)
                        else repos_page resp)"
  have pg: "page = repos_page resp \<or> page = filter (\<lambda>r. owner_login r = Some org) (repos_page resp)"
    by (simp add: page_def)
  define acc' where "acc' = acc @ collect_new (set (map repo_name acc)) page"
  define reached where "reached = limit_reached limit (length acc')"
  define final where "final = (case link resp of
            Some links \<Rightarrow> \<not> str_contains links (''rel='' @ [CHR 0x22] @ ''next'' @ [CHR 0x22])
          | None \<Rightarrow> length page < per_page)"
  show ?thesis
  proof (cases "status_code resp \<noteq> 200 \<or> repos_page resp = []")
    case True
    have "fetch_pages org e limit acc now (Responds resp # rest) = Returned acc now rest"
    proof (cases "status_code resp \<noteq> 200")
      case True with h show ?thesis by simp
    next
      case False with True h show ?thesis by simp
    qed
    with assms have "all = acc" "t = now" "r = rest" by simp_all
    with h show ?thesis by (rule stop)
  next
    case ok: False
    have eq: "fetch_pages org e limit acc now (Responds resp # rest) =
       (if reached then Returned acc' now rest
        else if final then Returned acc' now rest
        else fetch_pages org e limit acc' (now + 1 / 2) rest)"
      unfolding reached_def final_def acc'_def page_def using h ok by (simp add: Let_def)
    show ?thesis
    proof (cases "reached \<or> final")
      case True
      with eq have "fetch_pages org e limit acc now (Responds resp # rest) = Returned acc' now rest"
        by auto
      with assms have "all = acc'" "t = now" "r = rest" by simp_all
      with h pg show ?thesis unfolding acc'_def using last by blast
    next
      case False
      with eq assms have "fetch_pages org e limit acc' (now + 1 / 2) rest = Returned all t r"
        by auto
      moreover from False have "\<not> limit_reached limit (length acc')" by (simp add: reached_def)
      ultimately show ?thesis using h pg unfolding acc'_def using more by blast
    qed
  qed
qed

lemma fetch_pages_invariant:
  assumes "fetch_pages org e limit acc now evs = Returned all t r"
    and "distinct (map repo_name acc)"
  shows "distinct (map repo_name all) \<and> (\<exists>new. all = acc @ new) \<and> (\<exists>pre. evs = pre @ r)"
  using assms
proof (induction evs arbitrary: acc now)
  case Nil then show ?case by simp
next
  case (Cons ev rest)
  show ?case
  proof (cases ev)
    case Raises with Cons.prems show ?thesis by simp
  next
    case (Responds resp)
    with Cons.prems have run: "fetch_pages org e limit acc now (Responds resp # rest) = Returned all t r"
      by simp
    from run show ?thesis
    proof (cases rule: fetch_pages_Responds)
      case (pause now')
      from Cons.IH [OF pause(2) Cons.prems(2)] Responds show ?thesis
        by (metis append_Cons)
    next
      case stop
      with Cons.prems(2) Responds show ?thesis by (metis append_Nil append_Nil2 append_Cons)
    next
      case (last page)
      with Cons.prems(2) Responds add_page_distinct [OF Cons.prems(2), of page] show ?thesis
        by (metis append_Nil append_Cons)
    next
      case (more page)
      from Cons.IH [OF more(4) add_page_distinct [OF Cons.prems(2)]] Responds show ?thesis
        by (metis append_Cons append_assoc)
    qed
  qed
qed

lemma fetch_pages_limit_last:
  assumes "fetch_pages org e (Some L) acc now evs = Returned all t r"
    and "0 < L" and "int (length acc) < L" and "L \<le> int (length all)"
  shows "\<exists>pre resp acc0 page. evs = pre @ Responds resp # r \<and> int (length acc0) < L
           \<and> (page = repos_page resp \<or> page = filter (\<lambda>r. owner_login r = Some org) (repos_page resp))
           \<and> all = acc0 @ collect_new (set (map repo_name acc0)) page"
  using assms
proof (induction evs arbitrary: acc now)
  case Nil then show ?case by simp
next
  case (Cons ev rest)
  show ?case
  proof (cases ev)
    case Raises with Cons.prems show ?thesis by simp
  next
    case (Responds resp)
    with Cons.prems have run: "fetch_pages org e (Some L) acc now (Responds resp # rest) = Returned all t r"
      by simp
    from run show ?thesis
    proof (cases rule: fetch_pages_Responds)
      case (pause now')
      from Cons.IH [OF pause(2) Cons.prems(2,3,4)]
      obtain pre resp' acc0 page where "rest = pre @ Responds resp' # r" "int (length acc0) < L"
        "page = repos_page resp' \<or> page = filter (\<lambda>r. owner_login r = Some org) (repos_page resp')"
        "all = acc0 @ collect_new (set (map repo_name acc0)) page" by blast
      with Responds have "ev # rest = (ev # pre) @ Responds resp' # r" by simp
      with \<open>int (length acc0) < L\<close> \<open>page = repos_page resp' \<or> _\<close> \<open>all = _\<close>
      show ?thesis by blast
    next
      case stop
      with Cons.prems(3,4) show ?thesis by simp
    next
      case (last page)
      with Responds have "ev # rest = [] @ Responds resp # r" by simp
      with last Cons.prems(3) show ?thesis by blast
    next
      case (more page)
      let ?acc' = "acc @ collect_new (set (map repo_name acc)) page"
      from more(3) Cons.prems(2) have "int (length ?acc') < L" by (simp add: limit_reached_def)
      from Cons.IH [OF more(4) Cons.prems(2) this Cons.prems(4)]
      obtain pre resp' acc0 page' where "rest = pre @ Responds resp' # r" "int (length acc0) < L"
        "page' = repos_page resp' \<or> page' = filter (\<lambda>r. owner_login r = Some org) (repos_page resp')"
        "all = acc0 @ collect_new (set (map repo_name acc0)) page'" by blast
      with Responds have "ev # rest = (ev # pre) @ Responds resp' # r" by simp
      with \<open>int (length acc0) < L\<close> \<open>page' = repos_page resp' \<or> _\<close> \<open>all = _\<close>
      show ?thesis by blast
    qed
  qed
qed

lemma fetch_endpoints_invariant:
  assumes "fetch_endpoints org es limit acc now evs = Returned all t r"
    and "distinct (map repo_name acc)"
  shows "distinct (map repo_name all) \<and> (\<exists>new. all = acc @ new) \<and> (\<exists>pre. evs = pre @ r)"
  using assms
proof (induction es arbitrary: acc now evs)
  case Nil then show ?case by simp
next
  case (Cons e es)
  show ?case
  proof (cases "limit_reached limit (length acc)")
    case True with Cons.prems show ?thesis by simp
  next
    case False
    with Cons.prems(1) obtain acc' t' r' where p: "fetch_pages org e limit acc now evs = Returned acc' t' r'"
      and q: "fetch_endpoints org es limit acc' t' r' = Returned all t r"
      by (auto split: run.splits)
    from fetch_pages_invariant [OF p Cons.prems(2)]
    obtain new pre where 1: "distinct (map repo_name acc')" "acc' = acc @ new" "evs = pre @ r'" by blast
    from Cons.IH [OF q 1(1)]
    obtain new' pre' where 2: "distinct (map repo_name all)" "all = acc' @ new'" "r' = pre' @ r" by blast
    from 1 2 have "all = acc @ (new @ new')" "evs = (pre @ pre') @ r" by simp_all
    with 2(1) show ?thesis by blast
  qed
qed

lemma fetch_endpoints_limit_last:
  assumes "fetch_endpoints org es (Some L) acc now evs = Returned all t r"
    and "0 < L" and "int (length acc) < L" and "L \<le> int (length all)"
    and "distinct (map repo_name acc)"
  shows "\<exists>pre resp acc0 page. evs = pre @ Responds resp # r \<and> int (length acc0) < L
           \<and> (page = repos_page resp \<or> page = filter (\<lambda>r. owner_login r = Some org) (repos_page resp))
           \<and> all = acc0 @ collect_new (set (map repo_name acc0)) page"
  using assms
proof (induction es arbitrary: acc now evs)
  case Nil then show ?case by simp
next
  case (Cons e es)
  from Cons.prems(2,3) have "\<not> limit_reached (Some L) (length acc)" by (simp add: limit_reached_def)
  with Cons.prems(1) obtain acc' t' r' where p: "fetch_pages org e (Some L) acc now evs = Returned acc' t' r'"
      and q: "fetch_endpoints org es (Some L) acc' t' r' = Returned all t r"
    by (auto split: run.splits)
  from fetch_pages_invariant [OF p Cons.prems(5)]
  obtain pre0 where d: "distinct (map repo_name acc')" and s: "evs = pre0 @ r'" by blast
  show ?case
  proof (cases "L \<le> int (length acc')")
    case True
    with Cons.prems(2) have "limit_reached (Some L) (length acc')" by (simp add: limit_reached_def)
    with q have "all = acc'" "r = r'" by (cases es; simp)+
    with fetch_pages_limit_last [OF p Cons.prems(2,3)] True show ?thesis by simp
  next
    case False
    then have "int (length acc') < L" by simp
    from Cons.IH [OF q Cons.prems(2) this Cons.prems(4) d]
    obtain pre resp acc0 page where 1: "r' = pre @ Responds resp # r" "int (length acc0) < L"
        "page = repos_page resp \<or> page = filter (\<lambda>r. owner_login r = Some org) (repos_page resp)"
        "all = acc0 @ collect_new (set (map repo_name acc0)) page" by blast
    from s 1(1) have "evs = (pre0 @ pre) @ Responds resp # r" by simp
    with 1(2,3,4) show ?thesis by blast
  qed
qed


lemma apply_limit_positive: "0 < L \<Longrightarrow> apply_limit (Some L) all_repos = take (nat L) all_repos"
  by (simp add: apply_limit_def)


lemmas eval_defs = get_all_org_repos_def acme_config_def endpoints_of_def handle_rate_limiting_def
  plain_response_def not_found_def limit_reached_def apply_limit_def per_page_def str_contains_def
  repo_api_def repo_web_def repo_cli_def repo_api_again_def



text \<open>The page loop on one response, as one equation.\<close>

lemma fetch_pages_step:
  fixes org e acc resp
  defines "page \<equiv> (if str_contains e ''user/repos''
                     then filter (\<lambda>r. owner_login r = Some org) (repos_page resp)
                     else repos_page resp)"
  defines "acc' \<equiv> acc @ collect_new (set (map repo_name acc)) page"
  defines "final \<equiv> (case link resp of
            Some links \<Rightarrow> \<not> str_contains links (''rel='' @ [CHR 0x22] @ ''next'' @ [CHR 0x22])
          | None \<Rightarrow> length page < per_page)"
  shows "fetch_pages org e limit acc now (Responds resp # rest) =
     (if fst (handle_rate_limiting resp now)
      then fetch_pages org e limit acc (snd (handle_rate_limiting resp now)) rest
      else if status_code resp \<noteq> 200 \<or> repos_page resp = [] then Returned acc now rest
      else if limit_reached limit (length acc') \<or> final then Returned acc' now rest
      else fetch_pages org e limit acc' (now + 1 / 2) rest)"
proof (cases "fst (handle_rate_limiting resp now)")
  case True
  then obtain now' where "handle_rate_limiting resp now = (True, now')"
    by (cases "handle_rate_limiting resp now") auto
  then show ?thesis by simp
next
  case False
  then have h: "handle_rate_limiting resp now = (False, now)"
    by (rule handle_rate_limiting_no_pause)
  show ?thesis
    unfolding acc'_def final_def page_def using h by (simp add: Let_def)
qed

text \<open>
  A run of the page loop with a limit, against the run without a limit on the same events:
  either the limit is not reached and the two runs are the same, or the limited run stops
  earlier, with a list that has reached the limit and begins the list of the other run.
\<close>

lemma fetch_pages_limited:
  assumes "fetch_pages org e None acc now evs = Returned all t r"
    and "0 < L" and "int (length acc) < L" and "distinct (map repo_name acc)"
  shows "(int (length all) < L \<and> fetch_pages org e (Some L) acc now evs = Returned all t r)
       \<or> (\<exists>all' t' r' more. fetch_pages org e (Some L) acc now evs = Returned all' t' r'
             \<and> L \<le> int (length all') \<and> all = all' @ more)"
  using assms
proof (induction evs arbitrary: acc now)
  case Nil then show ?case by simp
next
  case (Cons ev rest)
  show ?case
  proof (cases ev)
    case Raises with Cons.prems show ?thesis by simp
  next
    case (Responds resp)
    define page where "page = (if str_contains e ''user/repos''
                     then filter (\<lambda>r. owner_login r = Some org) (repos_page resp)
                     else repos_page resp)"
    define acc' where "acc' = acc @ collect_new (set (map repo_name acc)) page"
    define final where "final = (case link resp of
            Some links \<Rightarrow> \<not> str_contains links (''rel='' @ [CHR 0x22] @ ''next'' @ [CHR 0x22])
          | None \<Rightarrow> length page < per_page)"
    define pause where "pause = fst (handle_rate_limiting resp now)"
    define now' where "now' = snd (handle_rate_limiting resp now)"
    define bad where "bad = (status_code resp \<noteq> 200 \<or> repos_page resp = [])"
    have step: "fetch_pages org e limit acc now (ev # rest) =
     (if pause then fetch_pages org e limit acc now' rest
      else if bad then Returned acc now rest
      else if limit_reached limit (length acc') \<or> final then Returned acc' now rest
      else fetch_pages org e limit acc' (now + 1 / 2) rest)" for limit
      unfolding Responds pause_def now'_def bad_def acc'_def final_def page_def
      by (rule fetch_pages_step)
    have none: "\<not> limit_reached None n" for n by (simp add: limit_reached_def)
    have some: "limit_reached (Some L) n \<longleftrightarrow> L \<le> int n" for n
      using Cons.prems(2) by (simp add: limit_reached_def)
    have d': "distinct (map repo_name acc')" unfolding acc'_def
      using Cons.prems(4) by (rule add_page_distinct)
    show ?thesis
    proof (cases pause)
      case True
      with Cons.prems(1) step [of None] have "fetch_pages org e None acc now' rest = Returned all t r"
        by simp
      from Cons.IH [OF this Cons.prems(2,3,4)] True step [of "Some L"] show ?thesis by simp
    next
      case np: False
      show ?thesis
      proof (cases bad)
        case True
        with np Cons.prems(1) step [of None] have "all = acc" "t = now" "r = rest" by simp_all
        with np True step [of "Some L"] Cons.prems(3) show ?thesis by simp
      next
        case nb: False
        show ?thesis
        proof (cases "L \<le> int (length acc')")
          case True
          with np nb step [of "Some L"] some
          have lim: "fetch_pages org e (Some L) acc now (ev # rest) = Returned acc' now rest" by simp
          have "\<exists>more. all = acc' @ more"
          proof (cases final)
            case True
            with np nb Cons.prems(1) step [of None] none show ?thesis by simp
          next
            case False
            with np nb Cons.prems(1) step [of None] none
            have "fetch_pages org e None acc' (now + 1 / 2) rest = Returned all t r" by simp
            from fetch_pages_invariant [OF this d'] show ?thesis by blast
          qed
          with lim True show ?thesis by blast
        next
          case small: False
          show ?thesis
          proof (cases final)
            case True
            with np nb Cons.prems(1) step [of None] none
            have "all = acc'" "t = now" "r = rest" by simp_all
            with np nb True small step [of "Some L"] some show ?thesis by simp
          next
            case False
            with np nb Cons.prems(1) step [of None] none
            have run: "fetch_pages org e None acc' (now + 1 / 2) rest = Returned all t r" by simp
            from small have "int (length acc') < L" by simp
            from Cons.IH [OF run Cons.prems(2) this d'] np nb False small step [of "Some L"] some
            show ?thesis by simp
          qed
        qed
      qed
    qed
  qed
qed

lemma fetch_endpoints_reached:
  "0 < L \<Longrightarrow> L \<le> int (length acc) \<Longrightarrow>
     fetch_endpoints org es (Some L) acc now evs = Returned acc now evs"
  by (cases es) (simp_all add: limit_reached_def)

lemma fetch_endpoints_limited:
  assumes "fetch_endpoints org es None acc now evs = Returned all t r"
    and "0 < L" and "distinct (map repo_name acc)"
  shows "\<exists>all' t' r' more. fetch_endpoints org es (Some L) acc now evs = Returned all' t' r'
           \<and> all = all' @ more
           \<and> (int (length all') < L \<longrightarrow> all' = all \<and> t' = t \<and> r' = r)"
  using assms
proof (induction es arbitrary: acc now evs)
  case Nil then show ?case by simp
next
  case (Cons e es)
  show ?case
  proof (cases "L \<le> int (length acc)")
    case True
    from fetch_endpoints_invariant [OF Cons.prems(1,3)] obtain more where "all = acc @ more" by blast
    with True fetch_endpoints_reached [OF Cons.prems(2) True] show ?thesis by auto
  next
    case False
    then have small: "int (length acc) < L" by simp
    have "\<not> limit_reached None (length acc)" by (simp add: limit_reached_def)
    with Cons.prems(1) obtain acc1 t1 r1 where p: "fetch_pages org e None acc now evs = Returned acc1 t1 r1"
      and q: "fetch_endpoints org es None acc1 t1 r1 = Returned all t r"
      by (auto split: run.splits)
    from fetch_pages_invariant [OF p Cons.prems(3)] have d1: "distinct (map repo_name acc1)" by simp
    from small Cons.prems(2) have nl: "\<not> limit_reached (Some L) (length acc)"
      by (simp add: limit_reached_def)
    from fetch_pages_limited [OF p Cons.prems(2) small Cons.prems(3)]
    consider (same) "int (length acc1) < L" "fetch_pages org e (Some L) acc now evs = Returned acc1 t1 r1"
      | (early) all' t' r' more where "fetch_pages org e (Some L) acc now evs = Returned all' t' r'"
          "L \<le> int (length all')" "acc1 = all' @ more" by blast
    then show ?thesis
    proof cases
      case same
      from Cons.IH [OF q Cons.prems(2) d1] same(2) nl show ?thesis by simp
    next
      case early
      from fetch_endpoints_invariant [OF q d1] obtain more' where "all = acc1 @ more'" by blast
      with early(3) have "all = all' @ (more @ more')" by simp
      moreover from early(1) nl fetch_endpoints_reached [OF Cons.prems(2) early(2)]
      have "fetch_endpoints org (e # es) (Some L) acc now evs = Returned all' t' r'" by simp
      ultimately show ?thesis using early(2) by auto
    qed
  qed
qed

lemma get_all_org_repos_unfold:
  assumes "get_all_org_repos cfg limit now events = Returned (Some repos) t rest"
  shows "\<exists>org user_response events'.
    org_name cfg = Some org \<and> events = Responds user_response # events' \<and>
    (\<forall>limit'. get_all_org_repos cfg limit' now events =
       (case fetch_endpoints org (endpoints_of org) limit' [] now events' of
          Starved \<Rightarrow> Starved
        | Raised e t r \<Rightarrow> Returned None t r
        | Returned all_repos t r \<Rightarrow> Returned (Some (apply_limit limit' all_repos)) t r))"
proof -
  from assms obtain token org where c: "github_token cfg = Some token" "org_name cfg = Some org"
    by (cases "github_token cfg"; cases "org_name cfg") (auto simp: get_all_org_repos_def)
  with assms have ne: "\<not> (token = [] \<or> org = [])"
    by (auto simp: get_all_org_repos_def)
  from assms c ne obtain user_response events' where e: "events = Responds user_response # events'"
    by (cases events; cases "hd events") (auto simp: get_all_org_repos_def)
  from assms c ne e have ok: "status_code user_response = 200"
    by (auto simp: get_all_org_repos_def split: if_splits)
  have "get_all_org_repos cfg limit' now events =
       (case fetch_endpoints org (endpoints_of org) limit' [] now events' of
          Starved \<Rightarrow> Starved
        | Raised e t r \<Rightarrow> Returned None t r
        | Returned all_repos t r \<Rightarrow> Returned (Some (apply_limit limit' all_repos)) t r)" for limit'
    using c ne e ok by (simp add: get_all_org_repos_def)
  with c e show ?thesis by blast
qed

lemmas eval_defs2 = get_all_org_repos_def acme_config_def endpoints_of_def handle_rate_limiting_def
  plain_response_def not_found_def limit_reached_def apply_limit_def per_page_def str_contains_def
  repo_api_def repo_web_def repo_cli_def repo_api_again_def repo_docs_def first_page_def
  second_page_def user_page_def

lemma unlimited_run:
  "get_all_org_repos acme_config None 0
     [Responds plain_response, Responds first_page, Responds second_page, Responds user_page] =
   Returned (Some [repo_api, repo_web, repo_cli, repo_docs]) (1 / 2) []"
  by (simp add: eval_defs2)

lemma limit_three_run:
  "get_all_org_repos acme_config (Some 3) 0
     [Responds plain_response, Responds first_page, Responds second_page, Responds user_page] =
   Returned (Some [repo_api, repo_web, repo_cli]) (1 / 2) [Responds user_page]"
  by (simp add: eval_defs2)

section \<open>Claims about the repository listing\<close>

text \<open>
  C5 as stated fails for the limit 0: the tests \<open>if limit and ...\<close> take 0 for "no
  limit", so one repository is returned where the claim asks for \<open>min(0, 1) = 0\<close>, and
  the second endpoint is still asked for its page.
\<close>

theorem limit_zero_counterexample:
  "get_all_org_repos acme_config (Some 0) 0
     [Responds plain_response, Responds (plain_response\<lparr>repos_page := [repo_api]\<rparr>),
      Responds plain_response] =
   Returned (Some [repo_api]) 0 []"
  by (simp add: eval_defs)

text \<open>
  C5, amended. For every caller-supplied limit \<open>L \<ge> 1\<close> and every sequence of listing
  responses on which the run without a limit returns the list \<open>available\<close> of the
  distinct repositories, \<open>get_all_org_repos(limit=L)\<close> returns on the same responses
  exactly the first \<open>L\<close> entries of \<open>available\<close>, in first-discovered order:
  \<open>min(L, number of distinct available repositories)\<close> records. If fewer than \<open>L\<close>
  are available the two runs issue the same requests; otherwise the last request issued is
  the page request whose response took the collection from fewer than \<open>L\<close> entries to
  \<open>L\<close> or more, on whatever endpoint, and the events after it are left unconsumed.
\<close>

theorem get_all_org_repos_limit:
  assumes "0 < L"
    and "get_all_org_repos cfg None now events = Returned (Some available) t rest"
  shows "\<exists>t' rest'.
           get_all_org_repos cfg (Some L) now events =
             Returned (Some (take (nat L) available)) t' rest' \<and>
           distinct (map repo_name available) \<and>
           length (take (nat L) available) = min (nat L) (card (repo_name ` set available)) \<and>
           (int (length available) < L \<longrightarrow> t' = t \<and> rest' = rest) \<and>
           (L \<le> int (length available) \<longrightarrow>
              (\<exists>pre response all_before page.
                 events = pre @ Responds response # rest' \<and> int (length all_before) < L \<and>
                 (page = repos_page response \<or>
                  page = filter (\<lambda>r. owner_login r = org_name cfg) (repos_page response)) \<and>
                 L \<le> int (length (all_before @ collect_new (set (map repo_name all_before)) page)) \<and>
                 take (nat L) available =
                   take (nat L) (all_before @ collect_new (set (map repo_name all_before)) page)))"
proof -
  from assms(2) obtain org user_response events' where
    c: "org_name cfg = Some org" and e: "events = Responds user_response # events'"
    and u: "\<And>limit'. get_all_org_repos cfg limit' now events =
       (case fetch_endpoints org (endpoints_of org) limit' [] now events' of
          Starved \<Rightarrow> Starved
        | Raised e t r \<Rightarrow> Returned None t r
        | Returned all_repos t r \<Rightarrow> Returned (Some (apply_limit limit' all_repos)) t r)"
    using get_all_org_repos_unfold by blast
  from assms(2) u [of None]
  have f: "fetch_endpoints org (endpoints_of org) None [] now events' = Returned available t rest"
    by (auto simp: apply_limit_def split: run.splits)
  have d: "distinct (map repo_name available)"
    using fetch_endpoints_invariant [OF f] by simp
  have dn: "distinct (map repo_name ([]::repo list))" by simp
  from fetch_endpoints_limited [OF f assms(1) dn]
  obtain all' t' r' more where
    f': "fetch_endpoints org (endpoints_of org) (Some L) [] now events' = Returned all' t' r'"
    and m: "available = all' @ more"
    and s: "int (length all') < L \<longrightarrow> all' = available \<and> t' = t \<and> r' = rest"
    by blast
  have tk: "take (nat L) all' = take (nat L) available"
  proof (cases "int (length all') < L")
    case True with s show ?thesis by simp
  next
    case False with m show ?thesis by simp
  qed
  from u [of "Some L"] f' assms(1) tk
  have run: "get_all_org_repos cfg (Some L) now events =
             Returned (Some (take (nat L) available)) t' r'"
    by (simp add: apply_limit_positive)
  from d have "card (repo_name ` set available) = length available"
    using distinct_card [of "map repo_name available"] by simp
  then have len: "length (take (nat L) available) = min (nat L) (card (repo_name ` set available))"
    by simp
  have same: "int (length available) < L \<longrightarrow> t' = t \<and> r' = rest"
  proof
    assume "int (length available) < L"
    with m have "int (length all') < L" by simp
    with s show "t' = t \<and> r' = rest" by simp
  qed
  have stop: "\<exists>pre response all_before page.
                 events = pre @ Responds response # r' \<and> int (length all_before) < L \<and>
                 (page = repos_page response \<or>
                  page = filter (\<lambda>r. owner_login r = org_name cfg) (repos_page response)) \<and>
                 L \<le> int (length (all_before @ collect_new (set (map repo_name all_before)) page)) \<and>
                 take (nat L) available =
                   take (nat L) (all_before @ collect_new (set (map repo_name all_before)) page)"
    if reached: "L \<le> int (length available)"
  proof -
    have big: "L \<le> int (length all')"
    proof (rule ccontr)
      assume "\<not> L \<le> int (length all')"
      then have "int (length all') < L" by simp
      with s have "all' = available" by simp
      with \<open>int (length all') < L\<close> reached show False by simp
    qed
    from assms(1) have "int (length ([]::repo list)) < L" by simp
    from fetch_endpoints_limit_last [OF f' assms(1) this big dn]
    obtain pre response all_before page where
      1: "events' = pre @ Responds response # r'" and 2: "int (length all_before) < L"
      and 3: "page = repos_page response \<or>
              page = filter (\<lambda>r. owner_login r = Some org) (repos_page response)"
      and 4: "all' = all_before @ collect_new (set (map repo_name all_before)) page"
      by auto
    from e 1 have "events = (Responds user_response # pre) @ Responds response # r'" by simp
    moreover from 3 c have "page = repos_page response \<or>
              page = filter (\<lambda>r. owner_login r = org_name cfg) (repos_page response)" by simp
    moreover from big 4
    have "L \<le> int (length (all_before @ collect_new (set (map repo_name all_before)) page))"
      by simp
    moreover from tk 4 have "take (nat L) available =
        take (nat L) (all_before @ collect_new (set (map repo_name all_before)) page)" by simp
    ultimately show ?thesis using 2 by blast
  qed
  from run d len same stop show ?thesis by blast
qed

theorem get_all_org_repos_limit_witness:
  "(0::int) < 3
   \<and> get_all_org_repos acme_config None 0
       [Responds plain_response, Responds first_page, Responds second_page, Responds user_page] =
     Returned (Some [repo_api, repo_web, repo_cli, repo_docs]) (1 / 2) []
   \<and> get_all_org_repos acme_config (Some 3) 0
       [Responds plain_response, Responds first_page, Responds second_page, Responds user_page] =
     Returned (Some [repo_api, repo_web, repo_cli]) (1 / 2) [Responds user_page]
   \<and> length [repo_api, repo_web, repo_cli] =
       min (nat 3) (card (repo_name ` set [repo_api, repo_web, repo_cli, repo_docs]))"
proof -
  have pos: "(0::int) < 3" by simp
  from get_all_org_repos_limit [OF pos unlimited_run]
  obtain t' rest' where
    1: "get_all_org_repos acme_config (Some 3) 0
       [Responds plain_response, Responds first_page, Responds second_page, Responds user_page] =
       Returned (Some (take (nat 3) [repo_api, repo_web, repo_cli, repo_docs])) t' rest'"
    and 2: "length (take (nat 3) [repo_api, repo_web, repo_cli, repo_docs]) =
       min (nat 3) (card (repo_name ` set [repo_api, repo_web, repo_cli, repo_docs]))"
    by blast
  have tk: "take (nat 3) [repo_api, repo_web, repo_cli, repo_docs] = [repo_api, repo_web, repo_cli]"
    by (simp add: numeral_3_eq_3)
  from 1 2 tk limit_three_run unlimited_run pos show ?thesis by simp
qed



end
